theory Spec2Isabelle
  imports Main "HOL-Library.Sublist"
begin

section \<open>The driver's LLVM back end: \<^verbatim>\<open>lib/driver/llvm.cc\<close>\<close>

subsection \<open>Target initialisation (\<^verbatim>\<open>init_llvm\<close>)\<close>

text \<open>
  The four registration calls of the NVPTX back end, in the order of the source, and the
  process-wide state they act on: the function-local \<^verbatim>\<open>static bool init\<close> and the
  sequence of registrations performed so far.
\<close>

datatype registration =
  NVPTXTargetInfo | NVPTXTarget | NVPTXTargetMC | NVPTXAsmPrinter

record llvm_state =
  init :: bool
  registered :: "registration list"

definition process_start :: llvm_state where
  "process_start = \<lparr>init = False, registered = []\<rparr>"

definition init_llvm :: "llvm_state \<Rightarrow> llvm_state" where
  "init_llvm s =
     (if \<not> init s
      then s\<lparr>registered := registered s @ [NVPTXTargetInfo, NVPTXTarget, NVPTXTargetMC, NVPTXAsmPrinter],
             init := True\<rparr>
      else s)"

subsection \<open>Version resolution (\<^verbatim>\<open>vptx\<close>)\<close>

text \<open>
  The exceptions of this file: \<^verbatim>\<open>std::runtime_error("Triton requires CUDA 10+")\<close>
  thrown by \<^verbatim>\<open>vptx\<close>.
\<close>

datatype error = UnsupportedToolkitVersion

definition vptx :: "int \<Rightarrow> error + int" where
  "vptx version =
     (if version \<ge> 11030 then Inr 73
      else if version \<ge> 11020 then Inr 72
      else if version \<ge> 11010 then Inr 71
      else if version \<ge> 11000 then Inr 70
      else if version \<ge> 10020 then Inr 65
      else if version \<ge> 10010 then Inr 64
      else if version \<ge> 10000 then Inr 63
      else Inl UnsupportedToolkitVersion)"

subsection \<open>Literal search and replace (\<^verbatim>\<open>find_and_replace\<close>)\<close>

text \<open>
  \<^verbatim>\<open>size_t\<close> is a 64-bit unsigned integer: positions are natural numbers below
  \<open>2 ^ 64\<close>, arithmetic on them wraps around, and \<^verbatim>\<open>std::string::npos\<close> is the
  largest of them. A \<^verbatim>\<open>std::string\<close> is shorter than \<open>npos\<close>, so the model
  describes the code on the strings \<open>s\<close> with \<open>length s < npos\<close>.
\<close>

definition npos :: nat where
  "npos = 2 ^ 64 - 1"

definition size_t_add :: "nat \<Rightarrow> nat \<Rightarrow> nat" where
  "size_t_add a b = (a + b) mod 2 ^ 64"

definition size_t_sub :: "nat \<Rightarrow> nat \<Rightarrow> nat" where
  "size_t_sub a b = (a + 2 ^ 64 - b mod 2 ^ 64) mod 2 ^ 64"

text \<open>The index of the first occurrence of \<open>pat\<close> in a string, if there is one.\<close>

fun find_first :: "string \<Rightarrow> string \<Rightarrow> nat option" where
  "find_first pat [] = (if pat = [] then Some 0 else None)"
| "find_first pat (c # cs) =
     (if prefix pat (c # cs) then Some 0 else map_option Suc (find_first pat cs))"

text \<open>
  \<^verbatim>\<open>str.find(pat, pos)\<close>: the first occurrence at or after \<open>pos\<close>, or \<open>npos\<close>;
  a \<open>pos\<close> beyond the end of the string finds nothing.
\<close>

definition string_find :: "string \<Rightarrow> string \<Rightarrow> nat \<Rightarrow> nat" where
  "string_find str pat pos =
     (if pos > length str then npos
      else case find_first pat (drop pos str) of None \<Rightarrow> npos | Some i \<Rightarrow> pos + i)"

text \<open>
  \<^verbatim>\<open>str.replace(pos, count, target)\<close> replaces the \<open>min count (size - pos)\<close>
  characters from \<open>pos\<close> on. The library call throws \<^verbatim>\<open>std::out_of_range\<close> when
  \<open>pos\<close> is beyond the end; \<open>find_and_replace\<close> only passes the position of an
  occurrence (lemma \<open>string_find_le_length\<close>).
\<close>

definition string_replace :: "string \<Rightarrow> nat \<Rightarrow> nat \<Rightarrow> string \<Rightarrow> string" where
  "string_replace str pos count target =
     take pos str @ target @ drop (pos + min count (length str - pos)) str"

text \<open>
  The string is passed by reference and changed in place: the model returns the new
  string with the result.
\<close>

definition find_and_replace :: "string \<Rightarrow> string \<Rightarrow> string \<Rightarrow> string \<Rightarrow> string \<times> bool" where
  "find_and_replace str begin_s end_s target =
     (let start_replace = string_find str begin_s 0;
          end_replace = string_find str end_s start_replace
      in if start_replace = npos then (str, False)
         else (string_replace str start_replace
                 (size_t_sub (size_t_add end_replace 1) start_replace) target, True))"

subsection \<open>Removing the inline-assembly markers\<close>

definition newline :: string where
  "newline = [CHR 0x0A]"

definition begin_inline_asm :: string where
  "begin_inline_asm = CHR 0x09 # ''// begin inline asm''"

definition end_inline_asm :: string where
  "end_inline_asm = CHR 0x09 # ''// end inline asm''"

text \<open>
  \<^verbatim>\<open>while(find_and_replace(result, marker, "\n", ""));\<close> The loop need not end:
  not returning is the value \<open>None\<close>.
\<close>

partial_function (option) strip_loop :: "string \<Rightarrow> string \<Rightarrow> string option" where
  "strip_loop marker result =
     (let (result', found) = find_and_replace result marker newline []
      in if found then strip_loop marker result' else Some result')"

text \<open>The two loops at the end of \<^verbatim>\<open>llir_to_ptx\<close>, one after the other.\<close>

definition strip_inline_asm :: "string \<Rightarrow> string option" where
  "strip_inline_asm result =
     (case strip_loop begin_inline_asm result of
        None \<Rightarrow> None
      | Some result' \<Rightarrow> strip_loop end_inline_asm result')"

subsection \<open>Code generation and post-processing (\<^verbatim>\<open>llir_to_ptx\<close>)\<close>

text \<open>\<^verbatim>\<open>std::to_string\<close> of an \<^verbatim>\<open>int\<close>: decimal digits, with a minus sign when negative.\<close>

definition digit_char :: "nat \<Rightarrow> char" where
  "digit_char d = ''0123456789'' ! d"

fun digits :: "nat \<Rightarrow> string" where
  "digits n = (if n < 10 then [digit_char n] else digits (n div 10) @ [digit_char (n mod 10)])"

declare digits.simps [simp del]

definition to_string :: "int \<Rightarrow> string" where
  "to_string n = (if n < 0 then CHR ''-'' # digits (nat (- n)) else digits (nat n))"

text \<open>The division and remainder of C++ on \<^verbatim>\<open>int\<close> truncate towards zero.\<close>

definition c_div :: "int \<Rightarrow> int \<Rightarrow> int" where
  "c_div a b = (if (a < 0) = (b < 0) then \<bar>a\<bar> div \<bar>b\<bar> else - (\<bar>a\<bar> div \<bar>b\<bar>))"

definition c_mod :: "int \<Rightarrow> int \<Rightarrow> int" where
  "c_mod a b = a - b * c_div a b"

text \<open>
  The LLVM library is not part of this file. Its code generator is the parameter
  \<open>emit\<close>: the assembly text it writes to the stream for the module at hand, given the
  processor string and the feature string the target machine is created with. A loop of
  the post-processing that does not end makes the whole call \<open>None\<close>; an exception is
  \<open>Some (Inl e)\<close>; the returned string comes with the state of the target initialiser.
  The other calls into LLVM (the option lookup with its assertion, the verifier pass, the
  target lookup, the data layout, the inlining attribute) act on LLVM's own objects; the
  model follows the call where they succeed.
\<close>

definition llir_to_ptx ::
    "(string \<Rightarrow> string \<Rightarrow> string) \<Rightarrow> int \<Rightarrow> int \<Rightarrow> llvm_state \<Rightarrow> (error + string \<times> llvm_state) option" where
  "llir_to_ptx emit cc version st =
     (let max_nvvm_cc = 75;
          max_nvvm_ptx = 64;
          sm = ''sm_'' @ to_string cc
      in case vptx version of
           Inl e \<Rightarrow> Some (Inl e)
         | Inr ptx \<Rightarrow>
             (let ptx_major = c_div ptx 10;
                  ptx_minor = c_mod ptx 10;
                  proc = ''sm_'' @ to_string (min cc max_nvvm_cc);
                  features = ''+ptx'' @ to_string (min ptx max_nvvm_ptx);
                  st' = init_llvm st;
                  result = emit proc features;
                  (result, _) = find_and_replace result ''.version'' newline
                     (''.version '' @ to_string ptx_major @ ''.'' @ to_string ptx_minor @ newline);
                  (result, _) = find_and_replace result ''.target'' newline
                     (''.target '' @ sm @ newline)
              in case strip_inline_asm result of
                   None \<Rightarrow> None
                 | Some result \<Rightarrow> Some (Inr (result, st'))))"

subsection \<open>Module loading (\<^verbatim>\<open>ptx_to_cumodule\<close>)\<close>

text \<open>
  The world the loader acts on: the files by path, the two output streams, and the calls
  made to the operating system and to the driver, in order.
\<close>

datatype call =
  Exec string | Mkstemp string | WriteFile string | System string
  | ModuleLoad string | ModuleLoadDataEx string | Unlink string

record world =
  files :: "string \<rightharpoonup> string"
  cout :: string
  cerr :: string
  calls :: "call list"

text \<open>
  Modelled from the spec: \<^verbatim>\<open>triton/driver/dispatch.h\<close> and \<^verbatim>\<open>triton/driver/error.h\<close>
  are not among the sources. A driver entry point called through \<^verbatim>\<open>dispatch\<close> that
  reports an error raises the exception of that error; \<open>invalid_ptx\<close> is the one the
  loader catches, \<open>cuda_error code\<close> stands for every other one.
\<close>

datatype cuda_exception = invalid_ptx | cuda_error nat

text \<open>
  What the process cannot decide itself: the exit status and output of a command run by
  \<^verbatim>\<open>tools::exec\<close>, the six characters \<^verbatim>\<open>mkstemp\<close> puts for \<^verbatim>\<open>XXXXXX\<close>, the exit
  status of \<^verbatim>\<open>system\<close> and what the command did to the files, and the answers of the
  two driver entry points (for the data-based one with the contents it leaves in the
  error and information log buffers). A module handle is a number.
\<close>

record platform =
  exec :: "string \<Rightarrow> int \<times> string"
  mkstemp_suffix :: "string \<Rightarrow> (string \<rightharpoonup> string) \<Rightarrow> string"
  system :: "string \<Rightarrow> (string \<rightharpoonup> string) \<Rightarrow> int \<times> (string \<rightharpoonup> string)"
  cuModuleLoad :: "(string \<rightharpoonup> string) \<Rightarrow> string \<Rightarrow> cuda_exception + nat"
  cuModuleLoadDataEx :: "string \<Rightarrow> (cuda_exception + nat) \<times> string \<times> string"

text \<open>
  \<^verbatim>\<open>mkstemp\<close> replaces the last six characters of the template, creates the file of
  that name, empty, and leaves the name in the buffer. The caller drops the descriptor
  it returns and does not look for a failure; the model follows the successful call.
\<close>

definition mkstemp_name :: "platform \<Rightarrow> string \<Rightarrow> (string \<rightharpoonup> string) \<Rightarrow> string" where
  "mkstemp_name p template fs = take (length template - 6) template @ mkstemp_suffix p template fs"

definition mkstemp :: "platform \<Rightarrow> string \<Rightarrow> world \<Rightarrow> string \<times> world" where
  "mkstemp p template w =
     (let name = mkstemp_name p template (files w)
      in (name, w\<lparr>files := (files w)(name \<mapsto> []), calls := calls w @ [Mkstemp template]\<rparr>))"

definition write_file :: "string \<Rightarrow> string \<Rightarrow> world \<Rightarrow> world" where
  "write_file path contents w = w\<lparr>files := (files w)(path \<mapsto> contents), calls := calls w @ [WriteFile path]\<rparr>"

definition run_system :: "platform \<Rightarrow> string \<Rightarrow> world \<Rightarrow> int \<times> world" where
  "run_system p cmd w =
     (let (status, fs) = system p cmd (files w)
      in (status, w\<lparr>files := fs, calls := calls w @ [System cmd]\<rparr>))"

definition unlink :: "string \<Rightarrow> world \<Rightarrow> world" where
  "unlink path w = w\<lparr>files := (files w)(path := None), calls := calls w @ [Unlink path]\<rparr>"

definition dispatch_cuModuleLoad :: "platform \<Rightarrow> string \<Rightarrow> world \<Rightarrow> (cuda_exception + nat) \<times> world" where
  "dispatch_cuModuleLoad p path w =
     (cuModuleLoad p (files w) path, w\<lparr>calls := calls w @ [ModuleLoad path]\<rparr>)"

definition dispatch_cuModuleLoadDataEx :: "platform \<Rightarrow> string \<Rightarrow> world \<Rightarrow> (cuda_exception + nat) \<times> world" where
  "dispatch_cuModuleLoadDataEx p ptx w =
     (fst (cuModuleLoadDataEx p ptx), w\<lparr>calls := calls w @ [ModuleLoadDataEx ptx]\<rparr>)"

text \<open>The assembler command line of strategy A.\<close>

definition ptxas_command :: "int \<Rightarrow> string \<Rightarrow> string \<Rightarrow> string" where
  "ptxas_command cc fsrc flog =
     ''ptxas'' @ '' -v --gpu-name=sm_'' @ to_string cc @ '' '' @ fsrc @ '' -o '' @ fsrc @ ''.o 2> '' @ flog"

text \<open>
  The body of the \<^verbatim>\<open>try\<close> block. An exception raised by the driver load leaves the
  block at once: the statements after the load do not run.
\<close>

definition ptx_to_cumodule_try :: "platform \<Rightarrow> string \<Rightarrow> int \<Rightarrow> world \<Rightarrow> (cuda_exception + nat) \<times> world" where
  "ptx_to_cumodule_try p ptx cc w =
     (let ptxas = ''ptxas'';
          (status, version) = exec p (ptxas @ '' --version 2>&1'');
          w = w\<lparr>calls := calls w @ [Exec (ptxas @ '' --version 2>&1'')]\<rparr>;
          use_system_ptxas = (status = 0)
      in if use_system_ptxas then
           (let (fsrc, w) = mkstemp p ''/tmp/triton_k_XXXXXX'' w;
                (flog, w) = mkstemp p ''/tmp/triton_l_XXXXXX'' w;
                w = write_file fsrc ptx w;
                cmd = ptxas_command cc fsrc flog;
                (err, w) = run_system p cmd w
            in case dispatch_cuModuleLoad p (fsrc @ ''.o'') w of
                 (Inl e, w) \<Rightarrow> (Inl e, w)
               | (Inr ret, w) \<Rightarrow> (Inr ret, unlink flog (unlink fsrc w)))
         else dispatch_cuModuleLoadDataEx p ptx w)"

text \<open>The \<^verbatim>\<open>catch\<close> clause: print, then throw the same exception again.\<close>

definition ptx_to_cumodule :: "platform \<Rightarrow> string \<Rightarrow> int \<Rightarrow> world \<Rightarrow> (cuda_exception + nat) \<times> world" where
  "ptx_to_cumodule p ptx cc w =
     (case ptx_to_cumodule_try p ptx cc w of
        (Inl invalid_ptx, w') \<Rightarrow>
          (Inl invalid_ptx,
           w'\<lparr>cout := cout w' @ ptx @ newline,
              cerr := cerr w' @ ''It appears that Triton produced invalid PTX code:'' @ newline\<rparr>)
      | (Inl (cuda_error c), w') \<Rightarrow> (Inl (cuda_error c), w')
      | (Inr ret, w') \<Rightarrow> (Inr ret, w'))"

text \<open>
  Names for what a call in the world \<open>w\<close> meets on its way: the two temporary files
  as \<^verbatim>\<open>mkstemp\<close> names them, the strategy chosen, the files the assembler starts
  from, its exit status with the files it leaves, and the answer of the driver entry
  point of the chosen strategy.
\<close>

definition fsrc_of :: "platform \<Rightarrow> world \<Rightarrow> string" where
  "fsrc_of p w = mkstemp_name p ''/tmp/triton_k_XXXXXX'' (files w)"

definition flog_of :: "platform \<Rightarrow> world \<Rightarrow> string" where
  "flog_of p w = mkstemp_name p ''/tmp/triton_l_XXXXXX'' ((files w)(fsrc_of p w \<mapsto> []))"

definition use_system_ptxas :: "platform \<Rightarrow> bool" where
  "use_system_ptxas p = (fst (exec p (''ptxas'' @ '' --version 2>&1'')) = 0)"

definition files_before_assembler :: "platform \<Rightarrow> string \<Rightarrow> world \<Rightarrow> (string \<rightharpoonup> string)" where
  "files_before_assembler p ptx w =
     (files w)(fsrc_of p w \<mapsto> [], flog_of p w \<mapsto> [], fsrc_of p w \<mapsto> ptx)"

definition assembler_run :: "platform \<Rightarrow> string \<Rightarrow> int \<Rightarrow> world \<Rightarrow> int \<times> (string \<rightharpoonup> string)" where
  "assembler_run p ptx cc w =
     system p (ptxas_command cc (fsrc_of p w) (flog_of p w)) (files_before_assembler p ptx w)"

definition driver_answer :: "platform \<Rightarrow> string \<Rightarrow> int \<Rightarrow> world \<Rightarrow> cuda_exception + nat" where
  "driver_answer p ptx cc w =
     (if use_system_ptxas p
      then cuModuleLoad p (snd (assembler_run p ptx cc w)) (fsrc_of p w @ ''.o'')
      else fst (cuModuleLoadDataEx p ptx))"

definition invalid_ptx_message :: string where
  "invalid_ptx_message = ''It appears that Triton produced invalid PTX code:''"

subsection \<open>Texts whose markers start a line\<close>

text \<open>
  \<open>markers_start_lines s\<close>: every occurrence of one of the two markers in \<open>s\<close>
  is at the front of \<open>s\<close> or directly after a line break, as in the text the
  generator writes. The flag says whether the position at hand starts a line.
  \<open>marker_boundaries\<close> says the same of every way of cutting the text at a marker.
\<close>

fun markers_start_lines_from :: "bool \<Rightarrow> string \<Rightarrow> bool" where
  "markers_start_lines_from at_start [] = True"
| "markers_start_lines_from at_start (c # cs) =
     ((at_start \<or> \<not> (prefix begin_inline_asm (c # cs) \<or> prefix end_inline_asm (c # cs)))
      \<and> markers_start_lines_from (c = CHR 0x0A) cs)"

definition markers_start_lines :: "string \<Rightarrow> bool" where
  "markers_start_lines s = markers_start_lines_from True s"

definition marker_boundaries :: "string \<Rightarrow> bool" where
  "marker_boundaries s =
     (\<forall>a m b. (m = begin_inline_asm \<or> m = end_inline_asm) \<and> s = a @ m @ b
        \<longrightarrow> a = [] \<or> last a = CHR 0x0A)"

subsection \<open>Sample texts\<close>

text \<open>
  A text with two marker pairs on lines of their own, and a text in which an
  end-inline-asm line stands inside the characters of a begin-inline-asm marker.
\<close>

definition two_marker_pairs :: string where
  "two_marker_pairs =
     begin_inline_asm @ newline @ CHR 0x09 # ''mov.u32 %r1, 1;'' @ newline
     @ end_inline_asm @ newline @ CHR 0x09 # ''add.s32 %r2, %r1, %r1;'' @ newline
     @ begin_inline_asm @ newline @ CHR 0x09 # ''mov.u32 %r3, 2;'' @ newline
     @ end_inline_asm @ newline @ CHR 0x09 # ''ret;'' @ newline"

definition spliced_marker_text :: string where
  "spliced_marker_text =
     CHR 0x09 # ''// begin'' @ end_inline_asm @ newline @ '' inline asm'' @ newline @ ''ret;''"

text \<open>
  A generator that writes what LLVM's NVPTX back end writes: the comment header, the
  \<open>.version\<close> line of the feature string it was given, the \<open>.target\<close> line of
  the processor string, and a body with two inline-assembly blocks.
\<close>

definition nvptx_header :: string where
  "nvptx_header = ''//'' @ newline @ ''// Generated by LLVM NVPTX Back-End'' @ newline @ ''//'' @ newline @ newline"

definition nvptx_emit :: "string \<Rightarrow> string \<Rightarrow> string" where
  "nvptx_emit proc features =
     nvptx_header
     @ ''.version'' @ '' '' @ [features ! 4] @ ''.'' @ [features ! 5] @ newline
     @ ''.target'' @ '' '' @ proc @ newline
     @ ''.address_size 64'' @ newline @ newline @ two_marker_pairs"

subsection \<open>Two platforms to run the loader on\<close>

text \<open>
  A platform with the assembler on the search path, whose run ends with the given exit
  status and writes the object file only when that is 0, and whose driver loads any file
  that exists (error 301 is \<^verbatim>\<open>CUDA_ERROR_FILE_NOT_FOUND\<close>); and a platform without
  the assembler, whose driver rejects one text as invalid and leaves a message in the error
  log buffer.
\<close>

definition empty_world :: world where
  "empty_world = \<lparr>files = Map.empty, cout = [], cerr = [], calls = []\<rparr>"

definition ptxas_platform :: "int \<Rightarrow> platform" where
  "ptxas_platform status =
     \<lparr>exec = (\<lambda>cmd. (0, ''ptxas: NVIDIA (R) Ptx optimizing assembler'')),
      mkstemp_suffix = (\<lambda>template fs. ''a1B2c3''),
      system = (\<lambda>cmd fs.
        (status,
         (if status = 0 then fs(''/tmp/triton_k_a1B2c3.o'' \<mapsto> ''cubin'') else fs)
           (''/tmp/triton_l_a1B2c3'' \<mapsto> ''ptxas log''))),
      cuModuleLoad = (\<lambda>fs path. case fs path of None \<Rightarrow> Inl (cuda_error 301) | Some obj \<Rightarrow> Inr 1),
      cuModuleLoadDataEx = (\<lambda>ptx. (Inl (cuda_error 999), [], []))\<rparr>"

definition jit_platform :: platform where
  "jit_platform =
     \<lparr>exec = (\<lambda>cmd. (127, ''sh: 1: ptxas: not found'')),
      mkstemp_suffix = (\<lambda>template fs. ''a1B2c3''),
      system = (\<lambda>cmd fs. (127, fs)),
      cuModuleLoad = (\<lambda>fs path. Inl (cuda_error 301)),
      cuModuleLoadDataEx = (\<lambda>ptx.
        if ptx = ''.version 7.3'' then (Inl invalid_ptx, ''ptxas fatal : Missing .target directive'', [])
        else (Inr 1, [], []))\<rparr>"

section \<open>Properties\<close>

subsection \<open>Version resolution\<close>

text \<open>
  C1. At the seven thresholds 10000, 10010, 10020, 11000, 11010, 11020, 11030 the version
  resolver returns 63, 64, 65, 70, 71, 72, 73; the highest applicable threshold wins, so
  every version from 11030 on yields 73; every version below 10000 fails with
  \<open>UnsupportedToolkitVersion\<close> and returns no value.
\<close>

theorem vptx_table:
  "vptx 10000 = Inr 63 \<and> vptx 10010 = Inr 64 \<and> vptx 10020 = Inr 65 \<and> vptx 11000 = Inr 70
   \<and> vptx 11010 = Inr 71 \<and> vptx 11020 = Inr 72 \<and> vptx 11030 = Inr 73
   \<and> (\<forall>v. 11030 \<le> v \<longrightarrow> vptx v = Inr 73)
   \<and> (\<forall>v. v < 10000 \<longrightarrow> vptx v = Inl UnsupportedToolkitVersion)"
  by (simp add: vptx_def)

theorem vptx_table_witness:
  "(11030::int) \<le> 12000 \<and> vptx 12000 = Inr 73
   \<and> (9050::int) < 10000 \<and> vptx 9050 = Inl UnsupportedToolkitVersion"
  using vptx_table by simp

text \<open>
  C9. The version resolver is monotone on its valid domain: for toolkit versions
  \<open>v1 \<le> v2\<close> with \<open>10000 \<le> v1\<close> both are resolved, and the version resolved for
  \<open>v1\<close> is at most the one resolved for \<open>v2\<close>.
\<close>

theorem vptx_mono:
  assumes "v1 \<le> v2" and "10000 \<le> v1"
  shows "\<exists>p1 p2. vptx v1 = Inr p1 \<and> vptx v2 = Inr p2 \<and> p1 \<le> p2"
  using assms by (simp add: vptx_def)

theorem vptx_mono_witness:
  "(10015::int) \<le> 11025 \<and> (10000::int) \<le> 10015
   \<and> (\<exists>p1 p2. vptx 10015 = Inr p1 \<and> vptx 11025 = Inr p2 \<and> p1 \<le> p2)"
  using vptx_mono [of 10015 11025] by simp

subsection \<open>Target initialisation\<close>

text \<open>
  C8. The target initialiser registers the back end once per process. Calling it twice is
  the same as calling it once; a call that finds the guard set changes nothing; the first
  call of a process performs the four registrations, in order, and sets the guard; any
  positive number of calls leaves the process where the first call left it.
\<close>

theorem init_llvm_once:
  "init_llvm (init_llvm s) = init_llvm s
   \<and> (init s \<longrightarrow> init_llvm s = s)
   \<and> init_llvm process_start =
       \<lparr>init = True, registered = [NVPTXTargetInfo, NVPTXTarget, NVPTXTargetMC, NVPTXAsmPrinter]\<rparr>
   \<and> (0 < n \<longrightarrow> (init_llvm ^^ n) process_start = init_llvm process_start)"
proof -
  have idem: "init_llvm (init_llvm t) = init_llvm t" for t
    by (simp add: init_llvm_def)
  have "(init_llvm ^^ Suc k) process_start = init_llvm process_start" for k
    by (induction k) (simp_all add: idem)
  then have "0 < n \<longrightarrow> (init_llvm ^^ n) process_start = init_llvm process_start"
    by (cases n) simp_all
  then show ?thesis
    by (simp add: idem) (simp add: init_llvm_def process_start_def)
qed

theorem init_llvm_once_witness:
  "init (init_llvm process_start)
   \<and> init_llvm (init_llvm process_start) = init_llvm process_start
   \<and> (0::nat) < 3
   \<and> (init_llvm ^^ 3) process_start =
       \<lparr>init = True, registered = [NVPTXTargetInfo, NVPTXTarget, NVPTXTargetMC, NVPTXAsmPrinter]\<rparr>"
  using init_llvm_once [of "init_llvm process_start" 3] init_llvm_once [of process_start 3]
  by simp

subsection \<open>Search and replace\<close>

lemma find_first_le: "find_first p s = Some i \<Longrightarrow> i + length p \<le> length s"
proof (induction s arbitrary: i)
  case Nil then show ?case by (simp split: if_splits)
next
  case (Cons c cs)
  then show ?case by (auto split: if_splits dest: prefix_length_le)
qed

lemma find_first_prefix: "find_first p s = Some i \<Longrightarrow> prefix p (drop i s)"
proof (induction s arbitrary: i)
  case Nil then show ?case by (simp split: if_splits)
next
  case (Cons c cs)
  then show ?case by (auto split: if_splits)
qed

lemma find_first_NoneD: "find_first p s = None \<Longrightarrow> \<not> prefix p (drop k s)"
proof (induction s arbitrary: k)
  case Nil then show ?case by (simp split: if_splits)
next
  case (Cons c cs)
  then show ?case by (cases k) (auto split: if_splits)
qed

lemma find_first_skip:
  "p \<noteq> [] \<Longrightarrow> hd p \<notin> set A \<Longrightarrow> find_first p (A @ R) = map_option (\<lambda>i. length A + i) (find_first p R)"
proof (induction A)
  case Nil then show ?case by (simp add: option.map_ident)
next
  case (Cons a A)
  then have "\<not> prefix p (a # A @ R)" by (cases p) auto
  with Cons show ?case by (simp add: option.map_comp comp_def)
qed


lemma string_find_le_length:
  "length str < npos \<Longrightarrow> string_find str pat pos \<noteq> npos \<Longrightarrow> string_find str pat pos \<le> length str"
  by (auto simp: string_find_def split: if_splits option.splits dest!: find_first_le)

lemma find_and_replace_eq:
  assumes "length str < npos"
  shows "find_and_replace str b e t =
    (case find_first b str of
       None \<Rightarrow> (str, False)
     | Some i \<Rightarrow>
         (case find_first e (drop i str) of
            Some j \<Rightarrow> (take i str @ t @ drop (i + j + 1) str, True)
          | None \<Rightarrow> if i = 0 then (t @ str, True) else (take i str @ t, True)))"
proof (cases "find_first b str")
  case None
  then show ?thesis by (simp add: find_and_replace_def string_find_def)
next
  case (Some i)
  from find_first_le [OF Some] have i: "i \<le> length str" by simp
  with assms have inp: "i < npos" "i \<noteq> npos" by simp_all
  have start: "string_find str b 0 = i" using Some by (simp add: string_find_def)
  show ?thesis
  proof (cases "find_first e (drop i str)")
    case None
    then have en: "string_find str e i = npos" using i by (simp add: string_find_def)
    have cnt: "size_t_sub (size_t_add npos 1) i = (if i = 0 then 0 else 2 ^ 64 - i)"
      using inp by (simp add: size_t_sub_def size_t_add_def npos_def)
    have "min (2 ^ 64 - i) (length str - i) = length str - i"
      using assms by (simp add: npos_def)
    then show ?thesis using Some None start en cnt inp i
      by (simp add: find_and_replace_def string_replace_def)
  next
    case (Some j)
    from find_first_le [OF Some] i have j: "i + j \<le> length str" by simp
    have en: "string_find str e i = i + j" using Some i by (simp add: string_find_def)
    have lt: "i + j + 1 < 2 ^ 64" "i < (2::nat) ^ 64" "j + 1 < (2::nat) ^ 64"
      using j assms by (simp_all add: npos_def)
    have "size_t_sub (size_t_add (i + j) 1) i = (2 ^ 64 + (j + 1)) mod 2 ^ 64"
      using lt by (simp add: size_t_sub_def size_t_add_def)
    also have "\<dots> = j + 1"
      using lt(3) by (simp only: mod_add_self1 mod_less)
    finally have cnt: "size_t_sub (size_t_add (i + j) 1) i = j + 1" .
    have "drop (i + min (j + 1) (length str - i)) str = drop (i + j + 1) str"
      using j by (cases "j + 1 \<le> length str - i") (simp_all add: min_def)
    then show ?thesis using Some \<open>find_first b str = Some i\<close> start en cnt inp
      by (simp add: find_and_replace_def string_replace_def)
  qed
qed



subsection \<open>The stripping loops\<close>

lemma find_first_newline_le:
  "find_first newline s = Some j \<Longrightarrow> j + 1 \<le> length s"
  using find_first_le [of newline s j] by (simp add: newline_def)

lemma find_and_replace_strip:
  assumes "length str < npos" and "find_and_replace str m newline [] = (r, b)"
  shows "if b then find_first m str \<noteq> None \<and> (r = str \<or> length r < length str)
         else r = str \<and> find_first m str = None"
proof (cases "find_first m str")
  case None
  with assms show ?thesis by (simp add: find_and_replace_eq)
next
  case (Some i)
  from find_first_le [OF Some] have i: "i \<le> length str" by simp
  show ?thesis
  proof (cases "find_first newline (drop i str)")
    case None
    have "take i str = str \<or> length (take i str) < length str"
      using i by (cases "i = length str") simp_all
    with assms Some None show ?thesis
      by (auto simp: find_and_replace_eq split: if_splits)
  next
    case (Some j)
    from find_first_newline_le [OF Some] i have "i + j + 1 \<le> length str" by simp
    then have "length (take i str @ drop (i + j + 1) str) < length str" by simp
    with assms Some \<open>find_first m str = Some i\<close> show ?thesis
      by (auto simp: find_and_replace_eq)
  qed
qed

lemma strip_loop_result:
  assumes "strip_loop m r = Some y" and "length r < npos"
  shows "length y \<le> length r \<and> find_first m y = None
         \<and> (find_first m r \<noteq> None \<longrightarrow> length y < length r)"
proof -
  have "length r < npos \<longrightarrow> length y \<le> length r \<and> find_first m y = None
         \<and> (find_first m r \<noteq> None \<longrightarrow> length y < length r)"
    using assms(1)
  proof (induction rule: strip_loop.raw_induct [rotated 1, consumes 1, case_names step])
    case (step f m r y)
    show ?case
    proof
      assume len: "length r < npos"
      obtain r' b where far: "find_and_replace r m newline [] = (r', b)"
        by (cases "find_and_replace r m newline []")
      note sh = find_and_replace_strip [OF len far]
      show "length y \<le> length r \<and> find_first m y = None
         \<and> (find_first m r \<noteq> None \<longrightarrow> length y < length r)"
      proof (cases b)
        case False
        with sh far step.hyps show ?thesis by simp
      next
        case True
        with far step.hyps have run: "f m r' = Some y" by simp
        from sh True have found: "find_first m r \<noteq> None"
          and cases: "r' = r \<or> length r' < length r" by simp_all
        from cases show ?thesis
        proof
          assume "r' = r"
          with step.IH [OF run] len show ?thesis by simp
        next
          assume less: "length r' < length r"
          with len have "length r' < npos" by simp
          with step.IH [OF run] less show ?thesis by simp
        qed
      qed
    qed
  qed
  with assms(2) show ?thesis by simp
qed

lemma strip_loop_absent: "find_first m r = None \<Longrightarrow> strip_loop m r = Some r"
  by (subst strip_loop.simps) (simp add: find_and_replace_def string_find_def)


lemma strip_loop_step:
  assumes "length r < npos"
  shows "strip_loop m r =
    (case find_first m r of
       None \<Rightarrow> Some r
     | Some i \<Rightarrow>
         (case find_first newline (drop i r) of
            Some j \<Rightarrow> strip_loop m (take i r @ drop (i + j + 1) r)
          | None \<Rightarrow> if i = 0 then strip_loop m r else strip_loop m (take i r)))"
  by (subst strip_loop.simps)
     (simp add: find_and_replace_eq [OF assms] split: option.splits)

text \<open>
  The loop does not end on a text that begins with the marker and has no line break:
  \<open>npos + 1 - 0\<close> wraps around to 0, nothing is replaced, and the answer is \<open>True\<close>.
\<close>

lemma strip_loop_stuck:
  assumes "find_and_replace r m newline [] = (r, True)"
  shows "strip_loop m r = None"
proof -
  have "(m', r') \<noteq> (m, r)" if "strip_loop m' r' = Some y" for m' r' y
    using that
  proof (induction rule: strip_loop.raw_induct [rotated 1, consumes 1, case_names step])
    case (step f m' r' y)
    show ?case
    proof
      assume "(m', r') = (m, r)"
      with step.hyps assms have "f m r = Some y" by simp
      from step.IH [OF this] show False by simp
    qed
  qed
  then show ?thesis by (cases "strip_loop m r") auto
qed

lemma marker_without_newline_diverges: "strip_inline_asm begin_inline_asm = None"
proof -
  have "length begin_inline_asm < npos" by (simp add: begin_inline_asm_def npos_def)
  then have "find_and_replace begin_inline_asm begin_inline_asm newline [] = (begin_inline_asm, True)"
    by (simp add: find_and_replace_eq) (simp add: begin_inline_asm_def newline_def)
  then show ?thesis by (simp add: strip_inline_asm_def strip_loop_stuck)
qed

lemma spliced_first_pass:
  "strip_inline_asm spliced_marker_text = Some (begin_inline_asm @ newline @ ''ret;'')"
  by (simp add: strip_inline_asm_def spliced_marker_text_def begin_inline_asm_def
      end_inline_asm_def newline_def strip_loop_step npos_def)

lemma spliced_second_pass:
  "strip_inline_asm (begin_inline_asm @ newline @ ''ret;'') = Some ''ret;''"
  by (simp add: strip_inline_asm_def begin_inline_asm_def
      end_inline_asm_def newline_def strip_loop_step npos_def)


lemma strip_inline_asm_Some:
  "strip_inline_asm s = Some t \<longleftrightarrow>
     (\<exists>u. strip_loop begin_inline_asm s = Some u \<and> strip_loop end_inline_asm u = Some t)"
  by (simp add: strip_inline_asm_def split: option.splits)

text \<open>
  Occurrences of the markers, and what one step of a loop does to the text: it removes a
  stretch that ends with a line break, or cuts the text off at the marker, or (when the
  marker is at the front and no line break follows) leaves it as it is.
\<close>

lemma marker_facts:
  assumes "m = begin_inline_asm \<or> m = end_inline_asm"
  shows "m \<noteq> []" and "CHR 0x0A \<notin> set m"
  using assms by (auto simp: begin_inline_asm_def end_inline_asm_def)

lemma markers_start_lines_from_occ:
  assumes "markers_start_lines_from f s" and "m = begin_inline_asm \<or> m = end_inline_asm"
    and "s = a @ m @ b"
  shows "if a = [] then f else last a = CHR 0x0A"
  using assms(1,3)
proof (induction s arbitrary: f a)
  case Nil
  with marker_facts(1) [OF assms(2)] show ?case by simp
next
  case (Cons c cs)
  show ?case
  proof (cases a)
    case Nil
    with Cons.prems(2) have "prefix m (c # cs)" by (metis append_Nil prefixI)
    with Cons.prems(1) assms(2) Nil show ?thesis by auto
  next
    case (Cons a0 a')
    with Cons.prems(2) have cs: "cs = a' @ m @ b" and c: "c = a0" by simp_all
    from Cons.prems(1) have "markers_start_lines_from (c = CHR 0x0A) cs" by simp
    from Cons.IH [OF this cs] c Cons show ?thesis by (cases "a' = []") simp_all
  qed
qed

lemma markers_start_lines_boundaries:
  "markers_start_lines s \<Longrightarrow> marker_boundaries s"
  unfolding markers_start_lines_def marker_boundaries_def
  using markers_start_lines_from_occ [of True s] by (metis (full_types))

lemma find_first_None_iff: "find_first m s = None \<longleftrightarrow> (\<forall>a b. s \<noteq> a @ m @ b)"
proof
  assume none: "find_first m s = None"
  show "\<forall>a b. s \<noteq> a @ m @ b"
  proof (intro allI notI)
    fix a b assume "s = a @ m @ b"
    then have "prefix m (drop (length a) s)" by simp
    with find_first_NoneD [OF none] show False by blast
  qed
next
  assume no: "\<forall>a b. s \<noteq> a @ m @ b"
  show "find_first m s = None"
  proof (cases "find_first m s")
    case (Some i)
    from find_first_prefix [OF Some] obtain d where "drop i s = m @ d" by (auto simp: prefix_def)
    then have "s = take i s @ m @ d" by (metis append_take_drop_id)
    with no show ?thesis by blast
  qed simp
qed

lemma find_first_char: "find_first [c] s = None \<longleftrightarrow> c \<notin> set s"
  by (induction s) auto

lemma occurrence_split:
  assumes bd: "a = [] \<or> last a = CHR 0x0A" and m: "CHR 0x0A \<notin> set m"
    and eq: "a @ b = x @ m @ y"
  shows "(\<exists>z. a = x @ m @ z) \<or> (\<exists>z. x = a @ z \<and> b = z @ m @ y)"
proof -
  from eq obtain z where "(a = x @ z \<and> z @ b = m @ y) \<or> (a @ z = x \<and> b = z @ m @ y)"
    by (auto simp: append_eq_append_conv2)
  then show ?thesis
  proof
    assume "a @ z = x \<and> b = z @ m @ y"
    then show ?thesis by auto
  next
    assume l: "a = x @ z \<and> z @ b = m @ y"
    then obtain w where "(z = m @ w \<and> w @ b = y) \<or> (z @ w = m \<and> b = w @ y)"
      by (auto simp: append_eq_append_conv2)
    then show ?thesis
    proof
      assume "z = m @ w \<and> w @ b = y"
      with l show ?thesis by auto
    next
      assume s: "z @ w = m \<and> b = w @ y"
      show ?thesis
      proof (cases "z = []")
        case True
        with l s show ?thesis by auto
      next
        case False
        with l have "a \<noteq> []" and "last a = last z" by auto
        with bd have "last z = CHR 0x0A" by simp
        with False have "CHR 0x0A \<in> set z" by (metis last_in_set)
        with s m show ?thesis by auto
      qed
    qed
  qed
qed

lemma find_and_replace_strip_shape:
  assumes len: "length r < npos" and far: "find_and_replace r m newline [] = (r', True)"
  shows "\<exists>a d. r = a @ m @ d \<and>
           (if CHR 0x0A \<in> set (m @ d)
            then \<exists>c b. r = a @ c @ b \<and> r' = a @ b \<and> c \<noteq> [] \<and> last c = CHR 0x0A
            else r' = r \<or> r' = a)"
proof (cases "find_first m r")
  case None
  with far show ?thesis by (simp add: find_and_replace_eq [OF len])
next
  case (Some i)
  define x where "x = drop i r"
  from find_first_prefix [OF Some] obtain d where d: "x = m @ d"
    by (auto simp: prefix_def x_def)
  have r: "r = take i r @ m @ d" using d append_take_drop_id [of i r] by (simp add: x_def)
  show ?thesis
  proof (cases "find_first newline x")
    case None
    then have no: "CHR 0x0A \<notin> set (m @ d)"
      using d by (simp add: newline_def find_first_char)
    from far Some None have "r' = r \<or> r' = take i r"
      by (auto simp: find_and_replace_eq [OF len] x_def split: if_splits)
    with r no have "r = take i r @ m @ d \<and>
           (if CHR 0x0A \<in> set (m @ d)
            then \<exists>c b. r = take i r @ c @ b \<and> r' = take i r @ b \<and> c \<noteq> [] \<and> last c = CHR 0x0A
            else r' = r \<or> r' = take i r)" by simp
    then show ?thesis by blast
  next
    case (Some j)
    from find_first_le [OF Some] have j: "j < length x" by (simp add: newline_def)
    from find_first_prefix [OF Some] have "x ! j = CHR 0x0A"
      using j by (auto simp: prefix_def newline_def dest!: arg_cong [where f = hd] simp: hd_drop_conv_nth)
    moreover have yes: "CHR 0x0A \<in> set x"
      using Some find_first_char [of "CHR 0x0A" x] by (simp add: newline_def)
    ultimately have c: "take (Suc j) x \<noteq> []" "last (take (Suc j) x) = CHR 0x0A"
      using j by (simp_all add: take_Suc_conv_app_nth)
    have split: "r = take i r @ take (Suc j) x @ drop (Suc j) x"
      by (simp only: x_def append_take_drop_id)
    from far \<open>find_first m r = Some i\<close> Some have "r' = take i r @ drop (i + j + 1) r"
      by (simp add: find_and_replace_eq [OF len] x_def)
    then have r': "r' = take i r @ drop (Suc j) x" by (simp add: x_def add.commute)
    from yes d have "CHR 0x0A \<in> set (m @ d)" by simp
    moreover from split r' c
    have "\<exists>c b. r = take i r @ c @ b \<and> r' = take i r @ b \<and> c \<noteq> [] \<and> last c = CHR 0x0A"
      by blast
    ultimately have "r = take i r @ m @ d \<and>
           (if CHR 0x0A \<in> set (m @ d)
            then \<exists>c b. r = take i r @ c @ b \<and> r' = take i r @ b \<and> c \<noteq> [] \<and> last c = CHR 0x0A
            else r' = r \<or> r' = take i r)" using r by simp
    then show ?thesis by blast
  qed
qed

lemma boundaries_step:
  assumes len: "length r < npos" and bd: "marker_boundaries r"
    and m: "m = begin_inline_asm \<or> m = end_inline_asm"
    and far: "find_and_replace r m newline [] = (r', True)"
  shows "marker_boundaries r'"
    and "find_first begin_inline_asm r = None \<Longrightarrow> find_first begin_inline_asm r' = None"
    and "r = [] \<or> last r = CHR 0x0A \<Longrightarrow> (r' = [] \<or> last r' = CHR 0x0A) \<and> length r' < length r"
proof -
  from find_and_replace_strip_shape [OF len far] obtain a d where r: "r = a @ m @ d"
    and sh: "if CHR 0x0A \<in> set (m @ d)
            then \<exists>c b. r = a @ c @ b \<and> r' = a @ b \<and> c \<noteq> [] \<and> last c = CHR 0x0A
            else r' = r \<or> r' = a"
    by blast
  from bd m r have a: "a = [] \<or> last a = CHR 0x0A"
    unfolding marker_boundaries_def by blast
  have occ: "(\<exists>p q. r = p @ k @ q) \<and> (x = [] \<or> last x = CHR 0x0A)"
    if k: "k = begin_inline_asm \<or> k = end_inline_asm" and eq: "r' = x @ k @ y" for k x y
  proof (cases "CHR 0x0A \<in> set (m @ d)")
    case False
    with sh have "r' = r \<or> r' = a" by simp
    then have "\<exists>q. r = x @ k @ q"
    proof
      assume "r' = r" with eq show ?thesis by auto
    next
      assume "r' = a"
      with eq r have "r = x @ k @ (y @ m @ d)" by simp
      then show ?thesis by blast
    qed
    with bd k show ?thesis unfolding marker_boundaries_def by blast
  next
    case True
    with sh obtain c b where rc: "r = a @ c @ b" and r': "r' = a @ b"
      and c: "c \<noteq> []" "last c = CHR 0x0A" by auto
    from occurrence_split [OF a marker_facts(2) [OF k], of b x y] eq r'
    have "(\<exists>z. a = x @ k @ z) \<or> (\<exists>z. x = a @ z \<and> b = z @ k @ y)" by simp
    then show ?thesis
    proof
      assume "\<exists>z. a = x @ k @ z"
      then obtain z where "a = x @ k @ z" ..
      with rc have "r = x @ k @ (z @ c @ b)" by simp
      with bd k show ?thesis unfolding marker_boundaries_def by blast
    next
      assume "\<exists>z. x = a @ z \<and> b = z @ k @ y"
      then obtain z where x: "x = a @ z" and b: "b = z @ k @ y" by blast
      with rc have in_r: "r = (a @ c @ z) @ k @ y" by simp
      have "x = [] \<or> last x = CHR 0x0A"
      proof (cases "z = []")
        case True
        with x a show ?thesis by simp
      next
        case False
        from bd k in_r have "a @ c @ z = [] \<or> last (a @ c @ z) = CHR 0x0A"
          unfolding marker_boundaries_def by blast
        with False x show ?thesis by simp
      qed
      with in_r show ?thesis by blast
    qed
  qed
  show "marker_boundaries r'"
    unfolding marker_boundaries_def using occ by blast
  show "find_first begin_inline_asm r' = None" if "find_first begin_inline_asm r = None"
    using that occ [of begin_inline_asm] unfolding find_first_None_iff by blast
  show "(r' = [] \<or> last r' = CHR 0x0A) \<and> length r' < length r" if "r = [] \<or> last r = CHR 0x0A"
  proof -
    have md: "m @ d \<noteq> []" using marker_facts(1) [OF m] by simp
    from that r md have "last (a @ (m @ d)) = CHR 0x0A" by auto
    moreover from md have "last (a @ (m @ d)) = last (m @ d)" by (rule last_appendR)
    ultimately have "last (m @ d) = CHR 0x0A" by (simp only:)
    with md have "CHR 0x0A \<in> set (m @ d)" by (metis last_in_set)
    with sh obtain c b where rc: "r = a @ c @ b" and r': "r' = a @ b"
      and c: "c \<noteq> []" "last c = CHR 0x0A" by auto
    have "length r' < length r" using rc r' c by simp
    moreover have "r' = [] \<or> last r' = CHR 0x0A"
    proof (cases "b = []")
      case True
      with r' a show ?thesis by simp
    next
      case False
      with rc r' that show ?thesis by simp
    qed
    ultimately show ?thesis by simp
  qed
qed

text \<open>
  A property that every replacing step keeps holds of the text a loop returns; if every
  step also shortens the text, the loop returns.
\<close>

lemma strip_loop_invariant:
  assumes run: "strip_loop m r = Some y" and len: "length r < npos" and Q: "Q r"
    and step: "\<And>r r'. length r < npos \<Longrightarrow> Q r \<Longrightarrow> find_and_replace r m newline [] = (r', True) \<Longrightarrow> Q r'"
  shows "Q y"
proof -
  have "k = m \<longrightarrow> length x < npos \<longrightarrow> Q x \<longrightarrow> Q z" if "strip_loop k x = Some z" for k x z
    using that
  proof (induction rule: strip_loop.raw_induct [rotated 1, consumes 1, case_names step])
    case (step f k x z)
    show ?case
    proof (intro impI)
      assume k: "k = m" and lx: "length x < npos" and Qx: "Q x"
      obtain x' b where far: "find_and_replace x m newline [] = (x', b)"
        by (cases "find_and_replace x m newline []")
      note sh = find_and_replace_strip [OF lx far]
      show "Q z"
      proof (cases b)
        case False
        with sh far step.hyps k Qx show ?thesis by simp
      next
        case True
        with far step.hyps k have run: "f m x' = Some z" by simp
        from sh True lx have "length x' < npos" by auto
        moreover from assms(4) [OF lx Qx] far True have "Q x'" by simp
        ultimately show ?thesis using step.IH [OF run] by simp
      qed
    qed
  qed
  from this [OF run] len Q show ?thesis by simp
qed

lemma strip_loop_returns:
  assumes step: "\<And>r r'. length r < npos \<Longrightarrow> Q r \<Longrightarrow> find_and_replace r m newline [] = (r', True)
      \<Longrightarrow> Q r' \<and> length r' < length r"
  shows "length r < npos \<Longrightarrow> Q r \<Longrightarrow> \<exists>y. strip_loop m r = Some y \<and> Q y"
proof (induction "length r" arbitrary: r rule: less_induct)
  case less
  obtain r' b where far: "find_and_replace r m newline [] = (r', b)"
    by (cases "find_and_replace r m newline []")
  show ?case
  proof (cases b)
    case False
    with find_and_replace_strip [OF less.prems(1) far] have "r' = r" by simp
    with far False have "strip_loop m r = Some r" by (subst strip_loop.simps) simp
    with less.prems(2) show ?thesis by simp
  next
    case True
    with step [OF less.prems] far have Q': "Q r'" and shorter: "length r' < length r" by simp_all
    from far True have "strip_loop m r = strip_loop m r'" by (subst strip_loop.simps) simp
    moreover from shorter less.prems(1) have "length r' < npos" by simp
    ultimately show ?thesis using less.hyps [OF shorter _ Q'] by simp
  qed
qed

lemma strip_inline_asm_fixed:
  "find_first begin_inline_asm t = None \<Longrightarrow> find_first end_inline_asm t = None
    \<Longrightarrow> strip_inline_asm t = Some t"
  by (simp add: strip_inline_asm_def strip_loop_absent)

lemma strip_inline_asm_line_markers:
  assumes len: "length s < npos" and ms: "markers_start_lines s"
    and run: "strip_inline_asm s = Some t"
  shows "strip_inline_asm t = Some t"
proof -
  from run obtain u where u: "strip_loop begin_inline_asm s = Some u"
    and t: "strip_loop end_inline_asm u = Some t"
    by (auto simp: strip_inline_asm_Some)
  from strip_loop_result [OF u len] have lu: "length u < npos" and nb: "find_first begin_inline_asm u = None"
    using len by simp_all
  have bu: "marker_boundaries u"
    by (rule strip_loop_invariant [where Q = marker_boundaries, OF u len markers_start_lines_boundaries [OF ms]])
       (rule boundaries_step(1), simp_all)
  have "marker_boundaries t \<and> find_first begin_inline_asm t = None"
    by (rule strip_loop_invariant [where Q = "\<lambda>r. marker_boundaries r \<and> find_first begin_inline_asm r = None", OF t lu])
       (use bu nb boundaries_step(1,2) [where m = end_inline_asm] in auto)
  moreover from strip_loop_result [OF t lu] have "find_first end_inline_asm t = None" by simp
  ultimately show ?thesis by (simp add: strip_inline_asm_fixed)
qed

lemma strip_inline_asm_line_markers_returns:
  assumes len: "length s < npos" and ms: "markers_start_lines s"
    and nl: "s = [] \<or> last s = CHR 0x0A"
  shows "\<exists>t. strip_inline_asm s = Some t \<and> strip_inline_asm t = Some t"
proof -
  let ?Q = "\<lambda>r. marker_boundaries r \<and> (r = [] \<or> last r = CHR 0x0A)"
  have "\<exists>u. strip_loop begin_inline_asm s = Some u \<and> ?Q u"
    by (rule strip_loop_returns [where Q = ?Q, OF _ len])
       (use markers_start_lines_boundaries [OF ms] nl boundaries_step(1,3) [where m = begin_inline_asm] in auto)
  then obtain u where u: "strip_loop begin_inline_asm s = Some u" and Qu: "?Q u" by blast
  from strip_loop_result [OF u len] have lu: "length u < npos" using len by simp
  have "\<exists>t. strip_loop end_inline_asm u = Some t \<and> ?Q t"
    by (rule strip_loop_returns [where Q = ?Q, OF _ lu])
       (use Qu boundaries_step(1,3) [where m = end_inline_asm] in auto)
  then obtain t where t: "strip_loop end_inline_asm u = Some t" by blast
  from u t have run: "strip_inline_asm s = Some t" by (simp add: strip_inline_asm_Some)
  with strip_inline_asm_line_markers [OF len ms] show ?thesis by blast
qed

text \<open>
  C7, as amended. On every text in which each inline-asm marker starts a line the
  stripping pass is idempotent: where the pass over such a text returns, a second pass
  over its output returns that output unchanged; and the pass does return when the text
  is moreover empty or ends with a line break. On every text, each of the two loops
  alone is idempotent: where it returns, running it again on its output returns that
  output unchanged. When a marker is absent the rewrite changes nothing and answers
  \<open>False\<close>; it is not an error.
\<close>

theorem strip_inline_asm_second_pass:
  assumes "length s < npos"
  shows "(markers_start_lines s \<longrightarrow>
            (\<forall>t. strip_inline_asm s = Some t \<longrightarrow> strip_inline_asm t = Some t))
     \<and> (markers_start_lines s \<and> (s = [] \<or> last s = CHR 0x0A) \<longrightarrow>
            (\<exists>t. strip_inline_asm s = Some t \<and> strip_inline_asm t = Some t))
     \<and> (\<forall>m u. strip_loop m s = Some u \<longrightarrow> strip_loop m u = Some u)
     \<and> (\<forall>m. find_first m s = None \<longrightarrow> find_and_replace s m newline [] = (s, False))"
proof -
  have pass: "strip_inline_asm t = Some t"
    if "markers_start_lines s" and "strip_inline_asm s = Some t" for t
    using assms that by (rule strip_inline_asm_line_markers)
  have returns: "\<exists>t. strip_inline_asm s = Some t \<and> strip_inline_asm t = Some t"
    if "markers_start_lines s" and "s = [] \<or> last s = CHR 0x0A"
    using assms that by (rule strip_inline_asm_line_markers_returns)
  have loop: "strip_loop m u = Some u" if "strip_loop m s = Some u" for m u
    using strip_loop_result [OF that assms] by (simp add: strip_loop_absent)
  have absent: "find_and_replace s m newline [] = (s, False)" if "find_first m s = None" for m
    using that by (simp add: find_and_replace_eq [OF assms])
  from pass returns loop absent show ?thesis by blast
qed

lemma two_marker_pairs_stripped:
  "strip_inline_asm two_marker_pairs =
     Some (CHR 0x09 # ''mov.u32 %r1, 1;'' @ newline @ CHR 0x09 # ''add.s32 %r2, %r1, %r1;'' @ newline
       @ CHR 0x09 # ''mov.u32 %r3, 2;'' @ newline @ CHR 0x09 # ''ret;'' @ newline)"
  by (simp add: strip_inline_asm_def two_marker_pairs_def begin_inline_asm_def
      end_inline_asm_def newline_def strip_loop_step npos_def)

lemma two_marker_pairs_facts:
  "length two_marker_pairs < npos"
  "markers_start_lines two_marker_pairs"
  "last two_marker_pairs = CHR 0x0A"
  "find_first ''.reg'' two_marker_pairs = None"
  by (simp_all add: two_marker_pairs_def markers_start_lines_def begin_inline_asm_def
      end_inline_asm_def newline_def npos_def)

lemma two_marker_pairs_begin_stripped:
  "strip_loop begin_inline_asm two_marker_pairs =
     Some (CHR 0x09 # ''mov.u32 %r1, 1;'' @ newline
       @ end_inline_asm @ newline @ CHR 0x09 # ''add.s32 %r2, %r1, %r1;'' @ newline
       @ CHR 0x09 # ''mov.u32 %r3, 2;'' @ newline
       @ end_inline_asm @ newline @ CHR 0x09 # ''ret;'' @ newline)"
  by (simp add: two_marker_pairs_def begin_inline_asm_def
      end_inline_asm_def newline_def strip_loop_step npos_def)

text \<open>
  Two marker pairs on lines of their own: both pairs are removed, the other lines stay,
  and a second pass changes nothing; the begin loop alone, run again, changes nothing;
  a rewrite for an absent marker changes nothing.
\<close>

theorem strip_inline_asm_second_pass_witness:
  "length two_marker_pairs < npos
   \<and> markers_start_lines two_marker_pairs
   \<and> last two_marker_pairs = CHR 0x0A
   \<and> strip_inline_asm two_marker_pairs =
       Some (CHR 0x09 # ''mov.u32 %r1, 1;'' @ newline @ CHR 0x09 # ''add.s32 %r2, %r1, %r1;'' @ newline
         @ CHR 0x09 # ''mov.u32 %r3, 2;'' @ newline @ CHR 0x09 # ''ret;'' @ newline)
   \<and> strip_inline_asm (CHR 0x09 # ''mov.u32 %r1, 1;'' @ newline @ CHR 0x09 # ''add.s32 %r2, %r1, %r1;'' @ newline
         @ CHR 0x09 # ''mov.u32 %r3, 2;'' @ newline @ CHR 0x09 # ''ret;'' @ newline) =
       Some (CHR 0x09 # ''mov.u32 %r1, 1;'' @ newline @ CHR 0x09 # ''add.s32 %r2, %r1, %r1;'' @ newline
         @ CHR 0x09 # ''mov.u32 %r3, 2;'' @ newline @ CHR 0x09 # ''ret;'' @ newline)
   \<and> strip_loop begin_inline_asm two_marker_pairs =
       Some (CHR 0x09 # ''mov.u32 %r1, 1;'' @ newline
         @ end_inline_asm @ newline @ CHR 0x09 # ''add.s32 %r2, %r1, %r1;'' @ newline
         @ CHR 0x09 # ''mov.u32 %r3, 2;'' @ newline
         @ end_inline_asm @ newline @ CHR 0x09 # ''ret;'' @ newline)
   \<and> strip_loop begin_inline_asm (CHR 0x09 # ''mov.u32 %r1, 1;'' @ newline
         @ end_inline_asm @ newline @ CHR 0x09 # ''add.s32 %r2, %r1, %r1;'' @ newline
         @ CHR 0x09 # ''mov.u32 %r3, 2;'' @ newline
         @ end_inline_asm @ newline @ CHR 0x09 # ''ret;'' @ newline) =
       Some (CHR 0x09 # ''mov.u32 %r1, 1;'' @ newline
         @ end_inline_asm @ newline @ CHR 0x09 # ''add.s32 %r2, %r1, %r1;'' @ newline
         @ CHR 0x09 # ''mov.u32 %r3, 2;'' @ newline
         @ end_inline_asm @ newline @ CHR 0x09 # ''ret;'' @ newline)
   \<and> find_first ''.reg'' two_marker_pairs = None
   \<and> find_and_replace two_marker_pairs ''.reg'' newline [] = (two_marker_pairs, False)"
proof -
  note all = strip_inline_asm_second_pass [OF two_marker_pairs_facts(1)]
  from all two_marker_pairs_facts(2) two_marker_pairs_stripped
  have second: "strip_inline_asm (CHR 0x09 # ''mov.u32 %r1, 1;'' @ newline @ CHR 0x09 # ''add.s32 %r2, %r1, %r1;'' @ newline
         @ CHR 0x09 # ''mov.u32 %r3, 2;'' @ newline @ CHR 0x09 # ''ret;'' @ newline) =
       Some (CHR 0x09 # ''mov.u32 %r1, 1;'' @ newline @ CHR 0x09 # ''add.s32 %r2, %r1, %r1;'' @ newline
         @ CHR 0x09 # ''mov.u32 %r3, 2;'' @ newline @ CHR 0x09 # ''ret;'' @ newline)"
    by blast
  from all two_marker_pairs_begin_stripped
  have loop: "strip_loop begin_inline_asm (CHR 0x09 # ''mov.u32 %r1, 1;'' @ newline
         @ end_inline_asm @ newline @ CHR 0x09 # ''add.s32 %r2, %r1, %r1;'' @ newline
         @ CHR 0x09 # ''mov.u32 %r3, 2;'' @ newline
         @ end_inline_asm @ newline @ CHR 0x09 # ''ret;'' @ newline) =
       Some (CHR 0x09 # ''mov.u32 %r1, 1;'' @ newline
         @ end_inline_asm @ newline @ CHR 0x09 # ''add.s32 %r2, %r1, %r1;'' @ newline
         @ CHR 0x09 # ''mov.u32 %r3, 2;'' @ newline
         @ end_inline_asm @ newline @ CHR 0x09 # ''ret;'' @ newline)"
    by blast
  from all two_marker_pairs_facts(4)
  have absent: "find_and_replace two_marker_pairs ''.reg'' newline [] = (two_marker_pairs, False)"
    by blast
  from second loop absent two_marker_pairs_facts two_marker_pairs_stripped
    two_marker_pairs_begin_stripped
  show ?thesis by (intro conjI)
qed

text \<open>
  C7 as stated fails: removing an end-inline-asm line can join the text before and after
  it into a begin-inline-asm marker, which the first loop has already passed. The second
  pass then removes that line, so its output differs from the output of the first.
\<close>

theorem second_pass_changes_text:
  "strip_inline_asm spliced_marker_text = Some (begin_inline_asm @ newline @ ''ret;'')
   \<and> strip_inline_asm (begin_inline_asm @ newline @ ''ret;'') = Some ''ret;''
   \<and> begin_inline_asm @ newline @ ''ret;'' \<noteq> ''ret;''"
  using spliced_first_pass spliced_second_pass by (simp add: begin_inline_asm_def)

text \<open>The text of the counterexample has a marker that does not start a line.\<close>

lemma spliced_marker_text_outside: "\<not> markers_start_lines spliced_marker_text"
  by (simp add: spliced_marker_text_def markers_start_lines_def begin_inline_asm_def
      end_inline_asm_def newline_def)

subsection \<open>Post-processing in \<^verbatim>\<open>llir_to_ptx\<close>\<close>

lemma strip_loop_keeps_prefix:
  assumes m: "m \<noteq> []" "hd m \<notin> set A" and A: "A \<noteq> []"
  shows "length (A @ x) < npos \<Longrightarrow>
    \<exists>x'. strip_loop m (A @ x) = Some (A @ x') \<and> length x' \<le> length x"
proof (induction "length x" arbitrary: x rule: less_induct)
  case less
  have ff: "find_first m (A @ x) = map_option (\<lambda>i. length A + i) (find_first m x)"
    using m by (rule find_first_skip)
  show ?case
  proof (cases "find_first m x")
    case None
    with ff have "find_first m (A @ x) = None" by simp
    then have "strip_loop m (A @ x) = Some (A @ x)" by (rule strip_loop_absent)
    then show ?thesis by blast
  next
    case (Some i)
    with ff have here: "find_first m (A @ x) = Some (length A + i)" by simp
    from find_first_le [OF Some] m(1) have i: "i < length x" by (cases m) simp_all
    have pos: "length A + i \<noteq> 0" using A by simp
    have dr: "drop (length A + i) (A @ x) = drop i x" by simp
    have tk: "take (length A + i) (A @ x) = A @ take i x" by simp
    show ?thesis
    proof (cases "find_first newline (drop i x)")
      case None
      note strip_loop_step [OF less.prems, of m]
      also have "(case find_first m (A @ x) of
           None \<Rightarrow> Some (A @ x)
         | Some i \<Rightarrow>
             (case find_first newline (drop i (A @ x)) of
                Some j \<Rightarrow> strip_loop m (take i (A @ x) @ drop (i + j + 1) (A @ x))
              | None \<Rightarrow> if i = 0 then strip_loop m (A @ x) else strip_loop m (take i (A @ x))))
          = strip_loop m (A @ take i x)"
        unfolding here option.case dr None tk using A by simp
      finally have run: "strip_loop m (A @ x) = strip_loop m (A @ take i x)" .
      have "length (take i x) < length x" using i by simp
      moreover have "length (A @ take i x) < npos" using less.prems by simp
      ultimately obtain x' where "strip_loop m (A @ take i x) = Some (A @ x')"
        and "length x' \<le> length (take i x)"
        using less.hyps by blast
      with run i show ?thesis by (intro exI [of _ x']) simp
    next
      case (Some j)
      from find_first_newline_le [OF Some] i have j: "i + j + 1 \<le> length x" by simp
      have dr2: "drop (length A + i + j + 1) (A @ x) = drop (i + j + 1) x"
        by (simp add: add.assoc)
      note strip_loop_step [OF less.prems, of m]
      also have "(case find_first m (A @ x) of
           None \<Rightarrow> Some (A @ x)
         | Some i \<Rightarrow>
             (case find_first newline (drop i (A @ x)) of
                Some j \<Rightarrow> strip_loop m (take i (A @ x) @ drop (i + j + 1) (A @ x))
              | None \<Rightarrow> if i = 0 then strip_loop m (A @ x) else strip_loop m (take i (A @ x))))
          = strip_loop m (A @ (take i x @ drop (i + j + 1) x))"
        unfolding here option.case dr Some tk dr2 by simp
      finally have run: "strip_loop m (A @ x) = strip_loop m (A @ (take i x @ drop (i + j + 1) x))" .
      have shorter: "length (take i x @ drop (i + j + 1) x) < length x" using j by simp
      moreover have "length (A @ (take i x @ drop (i + j + 1) x)) < npos"
        using less.prems shorter by simp
      ultimately obtain x' where "strip_loop m (A @ (take i x @ drop (i + j + 1) x)) = Some (A @ x')"
        and "length x' \<le> length (take i x @ drop (i + j + 1) x)"
        using less.hyps by blast
      with run shorter show ?thesis by (intro exI [of _ x']) simp
    qed
  qed
qed

lemma strip_inline_asm_keeps_prefix:
  assumes "CHR 0x09 \<notin> set A" and "A \<noteq> []" and "length (A @ x) < npos"
  shows "\<exists>x'. strip_inline_asm (A @ x) = Some (A @ x') \<and> length x' \<le> length x"
proof -
  have b: "begin_inline_asm \<noteq> []" "hd begin_inline_asm \<notin> set A"
    and e: "end_inline_asm \<noteq> []" "hd end_inline_asm \<notin> set A"
    using assms(1) by (simp_all add: begin_inline_asm_def end_inline_asm_def)
  from strip_loop_keeps_prefix [OF b assms(2,3)] obtain u
    where u: "strip_loop begin_inline_asm (A @ x) = Some (A @ u)" and lu: "length u \<le> length x"
    by blast
  from lu assms(3) have "length (A @ u) < npos" by simp
  from strip_loop_keeps_prefix [OF e assms(2) this] obtain x'
    where x': "strip_loop end_inline_asm (A @ u) = Some (A @ x')" and lx: "length x' \<le> length u"
    by blast
  from u x' lu lx show ?thesis
    by (intro exI [of _ x']) (simp add: strip_inline_asm_def)
qed

text \<open>The pass returns on every text that does not begin with a tab.\<close>

lemma strip_inline_asm_returns:
  assumes "s \<noteq> []" and "hd s \<noteq> CHR 0x09" and "length s < npos"
  shows "\<exists>t. strip_inline_asm s = Some t"
proof -
  from assms(1) obtain c cs where s: "s = [c] @ cs" by (cases s) auto
  with assms(2) have "CHR 0x09 \<notin> set [c]" by simp
  from strip_inline_asm_keeps_prefix [OF this, of cs] assms(3) s show ?thesis by auto
qed



lemma digits_numeral:
  "digits (numeral k) =
     (if (numeral k :: nat) < 10 then [digit_char (numeral k)]
      else digits (numeral k div 10) @ [digit_char (numeral k mod 10)])"
  by (rule digits.simps)










lemma to_string_samples:
  "to_string 86 = ''86''" "to_string 75 = ''75''" "to_string 70 = ''70''" "to_string 64 = ''64''"
  "to_string 7 = ''7''" "to_string 3 = ''3''"
  by (simp_all add: to_string_def digits_numeral digit_char_def)


lemma sample_hypotheses:
  "vptx 11030 = Inr 73"
  "CHR ''.'' \<notin> set nvptx_header \<union> set []"
  "CHR 0x09 \<notin> set nvptx_header \<union> set []"
  "CHR 0x0A \<notin> set '' 6.4'' \<union> set '' sm_75''"
  "length nvptx_header + length '' 6.4'' + length ([] :: string) + length '' sm_75''
     + length (''.address_size 64'' @ newline @ newline @ two_marker_pairs) + length (to_string 86) + 25 < npos"
  by (simp_all add: vptx_def nvptx_header_def newline_def two_marker_pairs_def begin_inline_asm_def
      end_inline_asm_def to_string_samples npos_def)





text \<open>
  The whole text returned for capability 70 and toolkit 11030 on the sample generator,
  and the failure for toolkit 9050.
\<close>

lemma llir_to_ptx_sample_output:
  "llir_to_ptx nvptx_emit 70 11030 process_start =
     Some (Inr (nvptx_header @ ''.version 7.3'' @ newline @ ''.target sm_70'' @ newline
        @ ''.address_size 64'' @ newline @ newline
        @ CHR 0x09 # ''mov.u32 %r1, 1;'' @ newline @ CHR 0x09 # ''add.s32 %r2, %r1, %r1;'' @ newline
        @ CHR 0x09 # ''mov.u32 %r3, 2;'' @ newline @ CHR 0x09 # ''ret;'' @ newline,
        init_llvm process_start))"
  by (simp add: llir_to_ptx_def sample_hypotheses(1) nvptx_emit_def nvptx_header_def to_string_samples
      c_div_def c_mod_def two_marker_pairs_def begin_inline_asm_def end_inline_asm_def newline_def
      find_and_replace_eq strip_inline_asm_def strip_loop_step npos_def)

lemma llir_to_ptx_unsupported: "llir_to_ptx emit cc 9050 st = Some (Inl UnsupportedToolkitVersion)"
  by (simp add: llir_to_ptx_def vptx_def)

subsection \<open>The module loader, step by step\<close>

lemma fsrc_of_eq: "fsrc_of p w = ''/tmp/triton_k_'' @ mkstemp_suffix p ''/tmp/triton_k_XXXXXX'' (files w)"
  by (simp add: fsrc_of_def mkstemp_name_def)

lemma flog_of_eq:
  "flog_of p w = ''/tmp/triton_l_'' @ mkstemp_suffix p ''/tmp/triton_l_XXXXXX'' ((files w)(fsrc_of p w \<mapsto> []))"
  by (simp add: flog_of_def mkstemp_name_def)

lemma object_not_temporary:
  "fsrc_of p w @ ''.o'' \<noteq> fsrc_of p w" "fsrc_of p w @ ''.o'' \<noteq> flog_of p w"
  by (simp_all add: fsrc_of_eq flog_of_eq)

text \<open>Strategy A, one call after the other, and strategy B.\<close>

lemma try_strategy_A:
  assumes "use_system_ptxas p"
  shows "ptx_to_cumodule_try p ptx cc w =
    (let fsrc = fsrc_of p w; flog = flog_of p w;
         fs = snd (assembler_run p ptx cc w);
         cs = calls w @ [Exec ''ptxas --version 2>&1'', Mkstemp ''/tmp/triton_k_XXXXXX'',
                Mkstemp ''/tmp/triton_l_XXXXXX'', WriteFile fsrc,
                System (ptxas_command cc fsrc flog), ModuleLoad (fsrc @ ''.o'')]
     in case cuModuleLoad p fs (fsrc @ ''.o'') of
          Inl e \<Rightarrow> (Inl e, w\<lparr>files := fs, calls := cs\<rparr>)
        | Inr ret \<Rightarrow> (Inr ret, w\<lparr>files := fs(fsrc := None, flog := None),
                                 calls := cs @ [Unlink fsrc, Unlink flog]\<rparr>))"
proof -
  define fsrc flog where "fsrc = fsrc_of p w" and "flog = flog_of p w"
  define k l where "k = ''/tmp/triton_k_XXXXXX''" and "l = ''/tmp/triton_l_XXXXXX''"
  define probe where "probe = ''ptxas'' @ '' --version 2>&1''"
  define cmd where "cmd = ptxas_command cc fsrc flog"
  define fs where "fs = snd (assembler_run p ptx cc w)"
  define w1 where "w1 = w\<lparr>calls := calls w @ [Exec probe]\<rparr>"
  define w2 where "w2 = w\<lparr>files := (files w)(fsrc \<mapsto> []), calls := calls w @ [Exec probe, Mkstemp k]\<rparr>"
  define w3 where "w3 = w\<lparr>files := (files w)(fsrc \<mapsto> [], flog \<mapsto> []),
    calls := calls w @ [Exec probe, Mkstemp k, Mkstemp l]\<rparr>"
  define w4 where "w4 = w\<lparr>files := files_before_assembler p ptx w,
    calls := calls w @ [Exec probe, Mkstemp k, Mkstemp l, WriteFile fsrc]\<rparr>"
  define w5 where "w5 = w\<lparr>files := fs,
    calls := calls w @ [Exec probe, Mkstemp k, Mkstemp l, WriteFile fsrc, System cmd]\<rparr>"
  define w6 where "w6 = w\<lparr>files := fs,
    calls := calls w @ [Exec probe, Mkstemp k, Mkstemp l, WriteFile fsrc, System cmd,
      ModuleLoad (fsrc @ ''.o'')]\<rparr>"
  have s1: "mkstemp p k w1 = (fsrc, w2)"
    by (simp add: mkstemp_def w1_def w2_def fsrc_def fsrc_of_def k_def Let_def)
  have s2: "mkstemp p l w2 = (flog, w3)"
    by (simp add: mkstemp_def w2_def w3_def flog_def flog_of_def fsrc_def l_def Let_def)
  have s3: "write_file fsrc ptx w3 = w4"
    by (simp add: write_file_def w3_def w4_def files_before_assembler_def fsrc_def flog_def)
  have s4: "run_system p cmd w4 = (fst (assembler_run p ptx cc w), w5)"
    by (simp add: run_system_def w4_def w5_def fs_def assembler_run_def cmd_def fsrc_def flog_def
        case_prod_beta)
  have s5: "dispatch_cuModuleLoad p (fsrc @ ''.o'') w5 = (cuModuleLoad p fs (fsrc @ ''.o''), w6)"
    by (simp add: dispatch_cuModuleLoad_def w5_def w6_def)
  have s6: "unlink flog (unlink fsrc w6) =
      w\<lparr>files := fs(fsrc := None, flog := None),
        calls := calls w @ [Exec probe, Mkstemp k, Mkstemp l, WriteFile fsrc, System cmd,
          ModuleLoad (fsrc @ ''.o''), Unlink fsrc, Unlink flog]\<rparr>"
    by (simp add: unlink_def w6_def)
  have probe: "fst (exec p probe) = 0"
    using assms by (simp add: use_system_ptxas_def probe_def)
  have "ptx_to_cumodule_try p ptx cc w =
      (case dispatch_cuModuleLoad p (fsrc @ ''.o'') w5 of
         (Inl e, w) \<Rightarrow> (Inl e, w)
       | (Inr ret, w) \<Rightarrow> (Inr ret, unlink flog (unlink fsrc w)))"
    unfolding ptx_to_cumodule_try_def Let_def case_prod_beta
      probe_def [symmetric] k_def [symmetric] l_def [symmetric] w1_def [symmetric]
    by (simp only: probe if_True refl s1 s2 s3 s4 fst_conv snd_conv cmd_def [symmetric])
  also have "\<dots> = (case cuModuleLoad p fs (fsrc @ ''.o'') of
          Inl e \<Rightarrow> (Inl e, w6)
        | Inr ret \<Rightarrow> (Inr ret, unlink flog (unlink fsrc w6)))"
    by (simp add: s5 split: sum.splits)
  finally have "ptx_to_cumodule_try p ptx cc w =
      (case cuModuleLoad p fs (fsrc @ ''.o'') of
          Inl e \<Rightarrow> (Inl e, w6)
        | Inr ret \<Rightarrow> (Inr ret, 
            w\<lparr>files := fs(fsrc := None, flog := None),
              calls := calls w @ [Exec probe, Mkstemp k, Mkstemp l, WriteFile fsrc, System cmd,
                ModuleLoad (fsrc @ ''.o''), Unlink fsrc, Unlink flog]\<rparr>))"
    by (simp only: s6)
  then show ?thesis
    unfolding Let_def fsrc_def [symmetric] flog_def [symmetric] fs_def [symmetric]
      cmd_def [symmetric]
    by (simp add: w6_def probe_def k_def l_def split: sum.splits)
qed

lemma try_strategy_B:
  assumes "\<not> use_system_ptxas p"
  shows "ptx_to_cumodule_try p ptx cc w =
    (fst (cuModuleLoadDataEx p ptx),
     w\<lparr>calls := calls w @ [Exec ''ptxas --version 2>&1'', ModuleLoadDataEx ptx]\<rparr>)"
  using assms
  by (simp add: ptx_to_cumodule_try_def use_system_ptxas_def dispatch_cuModuleLoadDataEx_def
      Let_def case_prod_beta)

lemma ptx_to_cumodule_eq:
  "ptx_to_cumodule p ptx cc w =
     (let (r, w') = ptx_to_cumodule_try p ptx cc w
      in if r = Inl invalid_ptx
         then (r, w'\<lparr>cout := cout w' @ ptx @ newline, cerr := cerr w' @ invalid_ptx_message @ newline\<rparr>)
         else (r, w'))"
  by (simp add: ptx_to_cumodule_def invalid_ptx_message_def
      split: prod.splits sum.splits cuda_exception.splits)

lemma try_answer: "fst (ptx_to_cumodule_try p ptx cc w) = driver_answer p ptx cc w"
  by (cases "use_system_ptxas p")
     (simp_all add: try_strategy_A try_strategy_B driver_answer_def Let_def split: sum.splits)

lemma ptx_to_cumodule_answer: "fst (ptx_to_cumodule p ptx cc w) = driver_answer p ptx cc w"
  by (simp add: ptx_to_cumodule_eq case_prod_beta try_answer [symmetric])

text \<open>Where the load returns, both temporary files are gone.\<close>

lemma temporaries_distinct: "fsrc_of p w \<noteq> flog_of p w"
  by (simp add: fsrc_of_eq flog_of_eq)

lemma temporaries_removed_on_return:
  assumes "use_system_ptxas p" and "fst (ptx_to_cumodule p ptx cc w) = Inr ret"
  shows "files (snd (ptx_to_cumodule p ptx cc w)) (fsrc_of p w) = None
     \<and> files (snd (ptx_to_cumodule p ptx cc w)) (flog_of p w) = None"
proof -
  from assms have "cuModuleLoad p (snd (assembler_run p ptx cc w)) (fsrc_of p w @ ''.o'') = Inr ret"
    by (simp add: ptx_to_cumodule_answer driver_answer_def)
  then show ?thesis
    by (simp add: ptx_to_cumodule_eq try_strategy_A [OF assms(1)] Let_def temporaries_distinct)
qed

lemma ptxas_platform_simps:
  "use_system_ptxas (ptxas_platform s)"
  "fsrc_of (ptxas_platform s) w = ''/tmp/triton_k_a1B2c3''"
  "flog_of (ptxas_platform s) w = ''/tmp/triton_l_a1B2c3''"
  by (simp_all add: use_system_ptxas_def fsrc_of_eq flog_of_eq ptxas_platform_def)

lemma ptxas_platform_run:
  "assembler_run (ptxas_platform s) ptx cc empty_world =
    (s, (if s = 0 then [''/tmp/triton_k_a1B2c3'' \<mapsto> ptx, ''/tmp/triton_l_a1B2c3'' \<mapsto> [],
           ''/tmp/triton_k_a1B2c3.o'' \<mapsto> ''cubin'']
         else [''/tmp/triton_k_a1B2c3'' \<mapsto> ptx, ''/tmp/triton_l_a1B2c3'' \<mapsto> []])
        (''/tmp/triton_l_a1B2c3'' \<mapsto> ''ptxas log''))"
  unfolding assembler_run_def files_before_assembler_def ptxas_platform_simps
  by (simp add: ptxas_platform_def empty_world_def fun_upd_twist)

text \<open>
  C4. Strategy A is to leave neither temporary file behind, on any exit path. Here the
  assembler is present and fails, the driver finds no object file and the load raises:
  both temporary files are still there when the call is left. The two \<^verbatim>\<open>unlink\<close>
  calls come after the load and are skipped by the exception.
\<close>

theorem temporaries_left_when_load_raises:
  "use_system_ptxas (ptxas_platform 255)
   \<and> fst (ptx_to_cumodule (ptxas_platform 255) ''bad ptx'' 70 empty_world) = Inl (cuda_error 301)
   \<and> files (snd (ptx_to_cumodule (ptxas_platform 255) ''bad ptx'' 70 empty_world))
         (fsrc_of (ptxas_platform 255) empty_world) = Some ''bad ptx''
   \<and> files (snd (ptx_to_cumodule (ptxas_platform 255) ''bad ptx'' 70 empty_world))
         (flog_of (ptxas_platform 255) empty_world) = Some ''ptxas log''"
proof -
  have load: "cuModuleLoad (ptxas_platform 255)
      (snd (assembler_run (ptxas_platform 255) ''bad ptx'' 70 empty_world))
      (''/tmp/triton_k_a1B2c3'' @ ''.o'') = Inl (cuda_error 301)"
    unfolding ptxas_platform_run by (simp add: ptxas_platform_def)
  have "ptx_to_cumodule_try (ptxas_platform 255) ''bad ptx'' 70 empty_world =
     (Inl (cuda_error 301),
      empty_world\<lparr>files := snd (assembler_run (ptxas_platform 255) ''bad ptx'' 70 empty_world),
        calls := calls empty_world @ [Exec ''ptxas --version 2>&1'', Mkstemp ''/tmp/triton_k_XXXXXX'',
                Mkstemp ''/tmp/triton_l_XXXXXX'', WriteFile ''/tmp/triton_k_a1B2c3'',
                System (ptxas_command 70 ''/tmp/triton_k_a1B2c3'' ''/tmp/triton_l_a1B2c3''),
                ModuleLoad (''/tmp/triton_k_a1B2c3'' @ ''.o'')]\<rparr>)"
    unfolding try_strategy_A [OF ptxas_platform_simps(1)] ptxas_platform_simps Let_def load
    by simp
  then show ?thesis
    unfolding ptx_to_cumodule_eq ptxas_platform_simps ptxas_platform_run
    by (simp add: ptxas_platform_simps)
qed


lemma try_streams:
  "cout (snd (ptx_to_cumodule_try p ptx cc w)) = cout w \<and> cerr (snd (ptx_to_cumodule_try p ptx cc w)) = cerr w"
  by (cases "use_system_ptxas p")
     (simp_all add: try_strategy_A try_strategy_B Let_def split: sum.splits)

lemma system_update_simps:
  "use_system_ptxas (p\<lparr>system := f\<rparr>) = use_system_ptxas p"
  "fsrc_of (p\<lparr>system := f\<rparr>) w = fsrc_of p w"
  "flog_of (p\<lparr>system := f\<rparr>) w = flog_of p w"
  "files_before_assembler (p\<lparr>system := f\<rparr>) ptx w = files_before_assembler p ptx w"
  by (simp_all add: use_system_ptxas_def fsrc_of_def flog_of_def mkstemp_name_def
      files_before_assembler_def)

text \<open>
  C5. In strategy A the exit status of the assembler is not looked at. The call to
  \<^verbatim>\<open>system\<close> is followed at once by the file-based load of the object path; the
  answer of the call is the answer of that load, on the files the assembler left; and a
  platform that differs only in the exit status of \<^verbatim>\<open>system\<close> gives the same answer
  and the same world.
\<close>

theorem load_attempted_whatever_the_exit_status:
  assumes "use_system_ptxas p"
  shows "(\<exists>before after. calls (snd (ptx_to_cumodule p ptx cc w)) =
            before @ [System (ptxas_command cc (fsrc_of p w) (flog_of p w)),
                      ModuleLoad (fsrc_of p w @ ''.o'')] @ after)
     \<and> fst (ptx_to_cumodule p ptx cc w) =
         cuModuleLoad p (snd (assembler_run p ptx cc w)) (fsrc_of p w @ ''.o'')
     \<and> ptx_to_cumodule (p\<lparr>system := \<lambda>cmd fs. (status, snd (system p cmd fs))\<rparr>) ptx cc w =
         ptx_to_cumodule p ptx cc w"
proof -
  let ?q = "p\<lparr>system := \<lambda>cmd fs. (status, snd (system p cmd fs))\<rparr>"
  let ?sys = "System (ptxas_command cc (fsrc_of p w) (flog_of p w))"
  let ?load = "ModuleLoad (fsrc_of p w @ ''.o'')"
  let ?front = "calls w @ [Exec ''ptxas --version 2>&1'', Mkstemp ''/tmp/triton_k_XXXXXX'',
                Mkstemp ''/tmp/triton_l_XXXXXX'', WriteFile (fsrc_of p w)]"
  have "calls (snd (ptx_to_cumodule p ptx cc w)) = ?front @ [?sys, ?load] @ []
      \<or> calls (snd (ptx_to_cumodule p ptx cc w)) =
          ?front @ [?sys, ?load] @ [Unlink (fsrc_of p w), Unlink (flog_of p w)]"
    by (simp add: ptx_to_cumodule_eq try_strategy_A [OF assms] Let_def split: sum.splits)
  then have c1: "\<exists>before after. calls (snd (ptx_to_cumodule p ptx cc w)) =
      before @ [?sys, ?load] @ after"
    by blast
  have c2: "fst (ptx_to_cumodule p ptx cc w) =
      cuModuleLoad p (snd (assembler_run p ptx cc w)) (fsrc_of p w @ ''.o'')"
    using assms by (simp add: ptx_to_cumodule_answer driver_answer_def)
  have q: "use_system_ptxas ?q" using assms by (simp add: system_update_simps)
  have run: "snd (assembler_run ?q ptx cc w) = snd (assembler_run p ptx cc w)"
    by (simp add: assembler_run_def system_update_simps)
  have "ptx_to_cumodule_try ?q ptx cc w = ptx_to_cumodule_try p ptx cc w"
    unfolding try_strategy_A [OF q] try_strategy_A [OF assms] run system_update_simps
    by simp
  then have c3: "ptx_to_cumodule ?q ptx cc w = ptx_to_cumodule p ptx cc w"
    by (simp add: ptx_to_cumodule_eq)
  from c1 c2 c3 show ?thesis by blast
qed

lemma ptxas_platform_answer:
  "driver_answer (ptxas_platform s) ptx cc empty_world = (if s = 0 then Inr 1 else Inl (cuda_error 301))"
  unfolding driver_answer_def ptxas_platform_run ptxas_platform_simps
  by (simp add: ptxas_platform_simps(1)) (simp add: ptxas_platform_def)

theorem load_attempted_whatever_the_exit_status_witness:
  "use_system_ptxas (ptxas_platform 0)
   \<and> fst (ptx_to_cumodule (ptxas_platform 0) ''ptx'' 70 empty_world) = Inr 1
   \<and> ptx_to_cumodule ((ptxas_platform 0)\<lparr>system := \<lambda>cmd fs. (1, snd (system (ptxas_platform 0) cmd fs))\<rparr>)
        ''ptx'' 70 empty_world = ptx_to_cumodule (ptxas_platform 0) ''ptx'' 70 empty_world"
  using load_attempted_whatever_the_exit_status [OF ptxas_platform_simps(1), of 0 "''ptx''" 70 empty_world 1]
    ptxas_platform_answer [of 0 "''ptx''" 70]
  by (simp add: ptxas_platform_simps driver_answer_def)

text \<open>
  C10. In strategy A the object file is never removed: under the path of the assembly
  file with \<^verbatim>\<open>.o\<close> appended the call leaves what the assembler left there, whether
  the load returns or raises, and the only paths ever passed to \<^verbatim>\<open>unlink\<close> are the
  two temporary files.
\<close>

theorem object_file_stays:
  assumes "use_system_ptxas p"
  shows "files (snd (ptx_to_cumodule p ptx cc w)) (fsrc_of p w @ ''.o'') =
           snd (assembler_run p ptx cc w) (fsrc_of p w @ ''.o'')
     \<and> (\<exists>new. calls (snd (ptx_to_cumodule p ptx cc w)) = calls w @ new
           \<and> Unlink (fsrc_of p w @ ''.o'') \<notin> set new
           \<and> (\<forall>path. Unlink path \<in> set new \<longrightarrow> path = fsrc_of p w \<or> path = flog_of p w))"
proof -
  let ?new = "[Exec ''ptxas --version 2>&1'', Mkstemp ''/tmp/triton_k_XXXXXX'',
      Mkstemp ''/tmp/triton_l_XXXXXX'', WriteFile (fsrc_of p w),
      System (ptxas_command cc (fsrc_of p w) (flog_of p w)), ModuleLoad (fsrc_of p w @ ''.o'')]"
  have f: "files (snd (ptx_to_cumodule p ptx cc w)) (fsrc_of p w @ ''.o'') =
           snd (assembler_run p ptx cc w) (fsrc_of p w @ ''.o'')"
    using object_not_temporary [of p w]
    by (simp add: ptx_to_cumodule_eq try_strategy_A [OF assms] Let_def split: sum.splits)
  have "calls (snd (ptx_to_cumodule p ptx cc w)) = calls w @ ?new
      \<or> calls (snd (ptx_to_cumodule p ptx cc w)) =
          calls w @ (?new @ [Unlink (fsrc_of p w), Unlink (flog_of p w)])"
    by (simp add: ptx_to_cumodule_eq try_strategy_A [OF assms] Let_def split: sum.splits)
  then have "\<exists>new. calls (snd (ptx_to_cumodule p ptx cc w)) = calls w @ new
           \<and> Unlink (fsrc_of p w @ ''.o'') \<notin> set new
           \<and> (\<forall>path. Unlink path \<in> set new \<longrightarrow> path = fsrc_of p w \<or> path = flog_of p w)"
  proof
    assume "calls (snd (ptx_to_cumodule p ptx cc w)) = calls w @ ?new"
    then show ?thesis by (intro exI [of _ ?new]) simp
  next
    assume "calls (snd (ptx_to_cumodule p ptx cc w)) =
          calls w @ (?new @ [Unlink (fsrc_of p w), Unlink (flog_of p w)])"
    then show ?thesis using object_not_temporary [of p w]
      by (intro exI [of _ "?new @ [Unlink (fsrc_of p w), Unlink (flog_of p w)]"]) auto
  qed
  with f show ?thesis by blast
qed

theorem object_file_stays_witness:
  "use_system_ptxas (ptxas_platform 0)
   \<and> fst (ptx_to_cumodule (ptxas_platform 0) ''ptx'' 70 empty_world) = Inr 1
   \<and> files (snd (ptx_to_cumodule (ptxas_platform 0) ''ptx'' 70 empty_world)) ''/tmp/triton_k_a1B2c3.o''
       = Some ''cubin''"
  using object_file_stays [OF ptxas_platform_simps(1), of 0 "''ptx''" 70 empty_world]
    ptx_to_cumodule_answer [of "ptxas_platform 0" "''ptx''" 70 empty_world]
  unfolding ptxas_platform_run ptxas_platform_simps ptxas_platform_answer
  by (simp add: ptxas_platform_simps(1))

text \<open>
  C6, as amended. When the driver entry point of the chosen strategy rejects the text as
  invalid, the call returns no handle and raises \<open>invalid_ptx\<close> again, after writing
  the assembly text and a line break to standard output and the fixed line
  \<^verbatim>\<open>It appears that Triton produced invalid PTX code:\<close> to standard error.
\<close>

theorem invalid_ptx_reported:
  assumes "driver_answer p ptx cc w = Inl invalid_ptx"
  shows "fst (ptx_to_cumodule p ptx cc w) = Inl invalid_ptx
     \<and> cout (snd (ptx_to_cumodule p ptx cc w)) = cout w @ ptx @ newline
     \<and> cerr (snd (ptx_to_cumodule p ptx cc w)) = cerr w @ invalid_ptx_message @ newline"
  using assms try_answer [of p ptx cc w] try_streams [of p ptx cc w]
  by (simp add: ptx_to_cumodule_eq case_prod_beta)

lemma jit_platform_simps:
  "\<not> use_system_ptxas jit_platform"
  "cuModuleLoadDataEx jit_platform ''.version 7.3'' =
     (Inl invalid_ptx, ''ptxas fatal : Missing .target directive'', [])"
  by (simp_all add: use_system_ptxas_def jit_platform_def)

text \<open>
  The in-driver strategy on a text the driver rejects.
\<close>

theorem invalid_ptx_reported_witness:
  "driver_answer jit_platform ''.version 7.3'' 70 empty_world = Inl invalid_ptx
   \<and> fst (ptx_to_cumodule jit_platform ''.version 7.3'' 70 empty_world) = Inl invalid_ptx
   \<and> cout (snd (ptx_to_cumodule jit_platform ''.version 7.3'' 70 empty_world)) = ''.version 7.3'' @ newline
   \<and> cerr (snd (ptx_to_cumodule jit_platform ''.version 7.3'' 70 empty_world)) =
       ''It appears that Triton produced invalid PTX code:'' @ newline"
proof -
  have a: "driver_answer jit_platform ''.version 7.3'' 70 empty_world = Inl invalid_ptx"
    by (simp add: driver_answer_def jit_platform_simps)
  from invalid_ptx_reported [OF a] a show ?thesis
    by (simp add: empty_world_def invalid_ptx_message_def)
qed

text \<open>
  C6 as stated asks for a captured diagnostic message. The message the driver leaves in
  the error log buffer appears on neither stream: the buffers are local to the
  \<^verbatim>\<open>try\<close> block and never read.
\<close>

theorem captured_log_not_surfaced:
  "\<not> use_system_ptxas jit_platform
   \<and> cuModuleLoadDataEx jit_platform ''.version 7.3'' =
       (Inl invalid_ptx, ''ptxas fatal : Missing .target directive'', [])
   \<and> fst (ptx_to_cumodule jit_platform ''.version 7.3'' 70 empty_world) = Inl invalid_ptx
   \<and> find_first ''ptxas fatal : Missing .target directive''
        (cout (snd (ptx_to_cumodule jit_platform ''.version 7.3'' 70 empty_world))) = None
   \<and> find_first ''ptxas fatal : Missing .target directive''
        (cerr (snd (ptx_to_cumodule jit_platform ''.version 7.3'' 70 empty_world))) = None"
proof -
  have "ptx_to_cumodule jit_platform ''.version 7.3'' 70 empty_world =
      (Inl invalid_ptx, empty_world\<lparr>cout := ''.version 7.3'' @ newline,
         cerr := invalid_ptx_message @ newline,
         calls := [Exec ''ptxas --version 2>&1'', ModuleLoadDataEx ''.version 7.3'']\<rparr>)"
    by (simp add: ptx_to_cumodule_eq try_strategy_B jit_platform_simps empty_world_def)
  then show ?thesis
    by (simp add: jit_platform_simps invalid_ptx_message_def newline_def)
qed

end
